theory Spec2Isabelle
  imports Complex_Main "HOL-Library.Word" "HOL-Library.AList"
begin

section \<open>JavaScript strings\<close>

text \<open>
  A JavaScript string is a sequence of UTF-16 code units; \<open>length\<close> and
  \<open>substring\<close> count code units.  String literals of the source are ASCII and are
  written with \<open>js\<close>.
\<close>

type_synonym code_unit = "16 word"
type_synonym jsstring = "code_unit list"

definition js :: "string \<Rightarrow> jsstring" where
  "js s = map of_char s"

section \<open>The regular expressions of \<open>src/index.ts\<close>\<close>

text \<open>
  Every regular expression of the security utilities is a sequence of quantified
  one-character atoms, optionally closed by \<open>$\<close>.  The matcher below is the
  backtracking matcher of ECMAScript restricted to that shape: a greedy quantifier first
  tries to take one more code unit and falls back to the rest of the pattern when that
  fails; the result is the number of code units of the first successful match that
  starts at the head of the given string.

  With flag \<open>i\<close> (and without flag \<open>u\<close>) two code units match when their
  canonical forms agree.  All pattern characters are ASCII, and canonicalisation never
  maps a code unit above 127 to one below 128, so only ASCII case folding matters:
  \<open>canon\<close> folds \<open>a-z\<close> to \<open>A-Z\<close> and leaves every other code unit alone.
  The classes \<open>\w\<close>, \<open>\d\<close>, \<open>\s\<close> are those of ECMAScript.  The two
  bracket classes of the source occur in patterns without flag \<open>i\<close>.
\<close>

datatype atom =
    Chr code_unit
  | Class "(code_unit \<times> code_unit) list"
  | WordChar
  | Digit
  | Space

datatype quant = One | Plus | Star | Exactly nat

datatype piece = Atom atom quant | EndAnchor

definition canon :: "code_unit \<Rightarrow> code_unit" where
  "canon c = (if 0x61 \<le> c \<and> c \<le> 0x7A then c - 0x20 else c)"

definition in_ranges :: "(code_unit \<times> code_unit) list \<Rightarrow> code_unit \<Rightarrow> bool" where
  "in_ranges rs c = list_ex (\<lambda>(lo, hi). lo \<le> c \<and> c \<le> hi) rs"

definition word_ranges :: "(code_unit \<times> code_unit) list" where
  "word_ranges = [(0x61, 0x7A), (0x41, 0x5A), (0x30, 0x39), (0x5F, 0x5F)]"

definition digit_ranges :: "(code_unit \<times> code_unit) list" where
  "digit_ranges = [(0x30, 0x39)]"

definition space_ranges :: "(code_unit \<times> code_unit) list" where
  "space_ranges = [(0x09, 0x0D), (0x20, 0x20), (0xA0, 0xA0), (0x1680, 0x1680),
     (0x2000, 0x200A), (0x2028, 0x2029), (0x202F, 0x202F), (0x205F, 0x205F),
     (0x3000, 0x3000), (0xFEFF, 0xFEFF)]"

fun atom_matches :: "bool \<Rightarrow> atom \<Rightarrow> code_unit \<Rightarrow> bool" where
  "atom_matches ic (Chr p) c = (if ic then canon p = canon c else p = c)"
| "atom_matches ic (Class rs) c = in_ranges rs c"
| "atom_matches ic WordChar c = in_ranges word_ranges c"
| "atom_matches ic Digit c = in_ranges digit_ranges c"
| "atom_matches ic Space c = in_ranges space_ranges c"

fun rmatch :: "bool \<Rightarrow> piece list \<Rightarrow> jsstring \<Rightarrow> nat option" where
  "rmatch ic [] s = Some 0"
| "rmatch ic (EndAnchor # ps) s = (if s = [] then rmatch ic ps s else None)"
| "rmatch ic (Atom a One # ps) [] = None"
| "rmatch ic (Atom a One # ps) (c # cs) =
     (if atom_matches ic a c then map_option Suc (rmatch ic ps cs) else None)"
| "rmatch ic (Atom a Plus # ps) [] = None"
| "rmatch ic (Atom a Plus # ps) (c # cs) =
     (if atom_matches ic a c then map_option Suc (rmatch ic (Atom a Star # ps) cs)
      else None)"
| "rmatch ic (Atom a Star # ps) [] = rmatch ic ps []"
| "rmatch ic (Atom a Star # ps) (c # cs) =
     (if atom_matches ic a c
      then (case rmatch ic (Atom a Star # ps) cs of
              Some n \<Rightarrow> Some (Suc n)
            | None \<Rightarrow> rmatch ic ps (c # cs))
      else rmatch ic ps (c # cs))"
| "rmatch ic (Atom a (Exactly 0) # ps) s = rmatch ic ps s"
| "rmatch ic (Atom a (Exactly (Suc k)) # ps) [] = None"
| "rmatch ic (Atom a (Exactly (Suc k)) # ps) (c # cs) =
     (if atom_matches ic a c then map_option Suc (rmatch ic (Atom a (Exactly k) # ps) cs)
      else None)"

text \<open>
  \<open>String.prototype.replace\<close> with a global regular expression and a replacement
  string without \<open>$\<close>: scan from the left, replace each match, resume after it.
  After an empty match the scan copies one code unit and resumes behind it.
\<close>

fun replace_g :: "bool \<Rightarrow> piece list \<Rightarrow> jsstring \<Rightarrow> jsstring \<Rightarrow> jsstring" where
  "replace_g ic ps r [] = (case rmatch ic ps [] of Some n \<Rightarrow> r | None \<Rightarrow> [])"
| "replace_g ic ps r (c # cs) =
     (case rmatch ic ps (c # cs) of
        None \<Rightarrow> c # replace_g ic ps r cs
      | Some 0 \<Rightarrow> r @ c # replace_g ic ps r cs
      | Some (Suc n) \<Rightarrow> r @ replace_g ic ps r (drop n cs))"

text \<open>
  \<open>RegExp.prototype.test\<close> for a pattern that starts with \<open>^\<close> (no flag
  \<open>m\<close>): the only index at which a match can start is 0.
\<close>

definition test_from_start :: "bool \<Rightarrow> piece list \<Rightarrow> jsstring \<Rightarrow> bool" where
  "test_from_start ic ps s = (rmatch ic ps s \<noteq> None)"

definition lit :: "string \<Rightarrow> piece list" where
  "lit s = map (\<lambda>c. Atom (Chr (of_char c)) One) s"

section \<open>Security utilities\<close>

definition REDACTED :: jsstring where
  "REDACTED = js ''[REDACTED]''"

definition dangerous_chars :: "(code_unit \<times> code_unit) list" where
  "dangerous_chars = [(0x3C, 0x3C), (0x3E, 0x3E), (0x22, 0x22), (0x27, 0x27), (0x26, 0x26)]"

definition sanitizeString :: "jsstring \<Rightarrow> jsstring" where
  "sanitizeString input =
    (let s1 = replace_g False [Atom (Class dangerous_chars) One] [] input;
         s2 = replace_g True (lit ''javascript:'') [] s1;
         s3 = replace_g True (lit ''data:'') [] s2;
         s4 = replace_g True (lit ''vbscript:'') [] s3;
         s5 = replace_g True (lit ''on'' @ [Atom WordChar Plus, Atom Space Star, Atom (Chr 0x3D) One]) [] s4;
         s6 = replace_g True (lit ''password'' @ [Atom Digit Star]) REDACTED s5;
         s7 = replace_g True (lit ''secret'' @ [Atom Digit Star]) REDACTED s6;
         s8 = replace_g True (lit ''token'' @ [Atom Digit Star]) REDACTED s7;
         s9 = replace_g True (lit ''key'' @ [Atom Digit Star]) REDACTED s8
     in take 1000 s9)"

text \<open>
  An optional string parameter: \<open>None\<close> is \<open>undefined\<close>.  In a condition
  (\<open>if (token)\<close>, \<open>!token\<close>) \<open>undefined\<close> and the empty string are falsy.
\<close>

definition truthy_string :: "jsstring option \<Rightarrow> bool" where
  "truthy_string t = (case t of None \<Rightarrow> False | Some s \<Rightarrow> s \<noteq> [])"

definition hex_lower :: "(code_unit \<times> code_unit) list" where
  "hex_lower = [(0x61, 0x66), (0x30, 0x39)]"

definition validateApiToken :: "jsstring option \<Rightarrow> bool" where
  "validateApiToken token =
    (case token of
       None \<Rightarrow> True
     | Some t \<Rightarrow>
         if t = [] then True
         else test_from_start False [Atom (Class hex_lower) (Exactly 40), EndAnchor] t)"

section \<open>JavaScript values\<close>

text \<open>
  A number is a double: not-a-number, an infinity, or a finite value, modelled as the
  rational it denotes (the program only compares numbers with zero and prints them;
  \<open>-0\<close> behaves as \<open>0\<close> in both).  An object is the list of its own enumerable
  properties in enumeration order, with distinct keys.
\<close>

datatype jsnum = NaN | PosInf | NegInf | Fin rat

datatype jsvalue =
    Undefined
  | Null
  | Bool bool
  | Num jsnum
  | Str jsstring
  | Arr "jsvalue list"
  | Obj "(jsstring \<times> jsvalue) list"

fun typeof :: "jsvalue \<Rightarrow> string" where
  "typeof Undefined = ''undefined''"
| "typeof Null = ''object''"
| "typeof (Bool b) = ''boolean''"
| "typeof (Num n) = ''number''"
| "typeof (Str s) = ''string''"
| "typeof (Arr xs) = ''object''"
| "typeof (Obj ps) = ''object''"

fun isNaN :: "jsvalue \<Rightarrow> bool" where
  "isNaN (Num NaN) = True"
| "isNaN v = False"

text \<open>\<open>v < 0\<close> for a value of type number.\<close>

fun negative :: "jsnum \<Rightarrow> bool" where
  "negative NaN = False"
| "negative PosInf = False"
| "negative NegInf = True"
| "negative (Fin q) = (q < 0)"

fun digits :: "nat \<Rightarrow> jsstring" where
  "digits n =
     (if n < 10 then [0x30 + of_nat n]
      else digits (n div 10) @ [0x30 + of_nat (n mod 10)])"

declare digits.simps [simp del]

text \<open>
  \<open>Number.prototype.toString\<close>: an integer below \<open>10^21\<close> in absolute value prints
  as its decimal digits.  The shortest round-trip representation of every other finite
  double is computed by the runtime and is the parameter \<open>repr\<close>.
\<close>

definition Number_toString :: "(rat \<Rightarrow> jsstring) \<Rightarrow> jsnum \<Rightarrow> jsstring" where
  "Number_toString repr x =
    (case x of
       NaN \<Rightarrow> js ''NaN''
     | PosInf \<Rightarrow> js ''Infinity''
     | NegInf \<Rightarrow> js ''-Infinity''
     | Fin q \<Rightarrow>
         if of_int \<lfloor>q\<rfloor> = q \<and> \<bar>q\<bar> < 10 ^ 21
         then (if q < 0 then js ''-'' @ digits (nat \<lfloor>- q\<rfloor>) else digits (nat \<lfloor>q\<rfloor>))
         else repr q)"

definition Boolean_toString :: "bool \<Rightarrow> jsstring" where
  "Boolean_toString b = (if b then js ''true'' else js ''false'')"

text \<open>Reading a property: a missing property reads as \<open>undefined\<close>.\<close>

definition get_prop :: "(jsstring \<times> jsvalue) list \<Rightarrow> jsstring \<Rightarrow> jsvalue" where
  "get_prop ps k = (case map_of ps k of None \<Rightarrow> Undefined | Some v \<Rightarrow> v)"

text \<open>
  \<open>sanitized[key] = v\<close> for a string \<open>v\<close> on an object created by \<open>{}\<close>.  The
  assignment creates or overwrites the own property \<open>key\<close>, with one exception of the
  language: \<open>__proto__\<close> is an accessor property inherited from
  \<open>Object.prototype\<close>, and its setter returns without effect when the value is
  neither an object nor \<open>null\<close>, so no own property is created.
\<close>

definition assign_string :: "(jsstring \<times> jsstring) list \<Rightarrow> jsstring \<Rightarrow> jsstring \<Rightarrow> (jsstring \<times> jsstring) list" where
  "assign_string obj key v =
     (if key = js ''__proto__'' then obj else AList.update key v obj)"

text \<open>The callback of \<open>Object.entries(params).forEach\<close>, with \<open>sanitized\<close> threaded through.\<close>

definition sanitize_entry ::
  "(rat \<Rightarrow> jsstring) \<Rightarrow> (jsstring \<times> jsstring) list \<Rightarrow> jsstring \<times> jsvalue \<Rightarrow> (jsstring \<times> jsstring) list" where
  "sanitize_entry repr sanitized entry =
    (case entry of (key, val) \<Rightarrow>
      if val \<noteq> Undefined \<and> val \<noteq> Null then
        (case val of
           Str s \<Rightarrow> assign_string sanitized key (sanitizeString s)
         | Num n \<Rightarrow> assign_string sanitized key (Number_toString repr n)
         | Bool b \<Rightarrow> assign_string sanitized key (Boolean_toString b)
         | _ \<Rightarrow> sanitized)
      else sanitized)"

definition validateAndSanitizeParams ::
  "(rat \<Rightarrow> jsstring) \<Rightarrow> (jsstring \<times> jsvalue) list \<Rightarrow> (jsstring \<times> jsstring) list" where
  "validateAndSanitizeParams repr params = foldl (sanitize_entry repr) [] params"

text \<open>
  \<open>normalizeApiResponse\<close> mutates \<open>data\<close> and returns it.  The condition
  \<open>data && typeof data === 'object' && data.results && Array.isArray(data.results)\<close>
  holds exactly for an object whose property \<open>results\<close> is an array (an array is
  truthy, and an array value \<open>data\<close> has no property \<open>results\<close>).
\<close>

definition normalizeApiResponse :: "jsvalue \<Rightarrow> jsvalue" where
  "normalizeApiResponse data =
    (case data of
       Obj props \<Rightarrow>
         (case get_prop props (js ''results'') of
            Arr results \<Rightarrow>
              (let count = get_prop props (js ''count'');
                   p1 = (if typeof count \<noteq> ''number'' \<or> isNaN count
                            \<or> (case count of Num n \<Rightarrow> negative n | _ \<Rightarrow> False)
                         then AList.update (js ''count'') (Num (Fin (of_nat (length results)))) props
                         else props);
                   p2 = (if get_prop p1 (js ''next'') \<noteq> Null
                            \<and> typeof (get_prop p1 (js ''next'')) \<noteq> ''string''
                         then AList.update (js ''next'') Null p1 else p1);
                   p3 = (if get_prop p2 (js ''previous'') \<noteq> Null
                            \<and> typeof (get_prop p2 (js ''previous'')) \<noteq> ''string''
                         then AList.update (js ''previous'') Null p2 else p2)
               in Obj p3)
          | _ \<Rightarrow> data)
     | _ \<Rightarrow> data)"

section \<open>Rate limiting\<close>

text \<open>
  The class \<open>RateLimiter\<close>: the map of timestamp arrays and the two read-only
  settings.  \<open>Date.now()\<close> is an input of \<open>isAllowed\<close>; timestamps are integers
  (milliseconds).  The method returns its result together with the updated object.
\<close>

record RateLimiter =
  requests :: "jsstring \<rightharpoonup> int list"
  maxRequests :: int
  windowMs :: int

text \<open>The loop \<open>while (requestTimes.length > 0 && requestTimes[0] < windowStart) requestTimes.shift()\<close>.\<close>

fun evict :: "int \<Rightarrow> int list \<Rightarrow> int list" where
  "evict windowStart [] = []"
| "evict windowStart (t # ts) = (if t < windowStart then evict windowStart ts else t # ts)"

definition isAllowed :: "RateLimiter \<Rightarrow> jsstring \<Rightarrow> int \<Rightarrow> bool \<times> RateLimiter" where
  "isAllowed rl identifier now =
    (let windowStart = now - windowMs rl;
         reqs = (if requests rl identifier = None then (requests rl)(identifier \<mapsto> [])
                 else requests rl);
         requestTimes = (case reqs identifier of Some ts \<Rightarrow> ts | None \<Rightarrow> []);
         requestTimes = evict windowStart requestTimes
     in if int (length requestTimes) \<ge> maxRequests rl
        then (False, rl\<lparr>requests := reqs(identifier \<mapsto> requestTimes)\<rparr>)
        else (True, rl\<lparr>requests := reqs(identifier \<mapsto> requestTimes @ [now])\<rparr>))"

definition new_RateLimiter :: "int \<Rightarrow> int \<Rightarrow> RateLimiter" where
  "new_RateLimiter maxReq window = \<lparr>requests = Map.empty, maxRequests = maxReq, windowMs = window\<rparr>"

text \<open>A sequence of calls, each with its identifier and its clock reading.\<close>

fun calls :: "RateLimiter \<Rightarrow> (jsstring \<times> int) list \<Rightarrow> bool list \<times> RateLimiter" where
  "calls rl [] = ([], rl)"
| "calls rl ((identifier, now) # rest) =
     (case isAllowed rl identifier now of
        (ok, rl') \<Rightarrow> (case calls rl' rest of (oks, rl'') \<Rightarrow> (ok # oks, rl'')))"

section \<open>The request helper\<close>

text \<open>
  What the body of \<open>makeCourtListenerRequest\<close> meets outside the program is an input
  of the model: the clock, the user agent taken from the process environment, the
  number formatting of the runtime, and \<open>fetch\<close>, which for a request either rejects
  with a thrown value (a network failure, or an \<open>AbortError\<close> when the timer aborts
  the call) or yields a response with its status and the outcome of \<open>response.json()\<close>.
  \<open>new URL\<close> of the fixed base followed by any endpoint cannot fail: the endpoint
  only extends the path.
\<close>

datatype thrown = Error jsstring | NonError

record request =
  url :: jsstring
  searchParams :: "(jsstring \<times> jsstring) list"
  headers :: "(jsstring \<times> jsstring) list"

datatype fetched = Rejects thrown | Responds nat "thrown + jsvalue"

record world =
  Date_now :: int
  USER_AGENT :: jsstring
  number_repr :: "rat \<Rightarrow> jsstring"
  fetch :: "request \<Rightarrow> fetched"

text \<open>How the promise returned by the async function settles.\<close>

datatype settled = Fulfilled jsvalue | Rejected thrown

definition COURTLISTENER_API_BASE :: jsstring where
  "COURTLISTENER_API_BASE = js ''https://www.courtlistener.com/api/rest/v4''"

definition status_message :: "nat \<Rightarrow> jsstring" where
  "status_message statusCode =
    (if statusCode = 401 then js ''Authentication failed - invalid API token''
     else if statusCode = 429 then js ''Rate limited by CourtListener API''
     else if statusCode \<ge> 500 then js ''CourtListener API server error''
     else js ''CourtListener API request failed with status: '' @ digits statusCode)"

text \<open>
  The \<open>try\<close> block: its completion (\<open>Inl\<close> a thrown value, \<open>Inr\<close> the returned
  value), the rate limiter after it, and the lines written with \<open>console.error\<close>.
\<close>

definition clientId :: "jsstring option \<Rightarrow> jsstring" where
  "clientId authToken =
    (case authToken of
       Some t \<Rightarrow> if t \<noteq> [] then js ''token:'' @ take 8 t else js ''anonymous''
     | None \<Rightarrow> js ''anonymous'')"

definition build_request ::
  "world \<Rightarrow> jsstring \<Rightarrow> (jsstring \<times> jsvalue) list \<Rightarrow> jsstring option \<Rightarrow> request" where
  "build_request w endpoint params authToken =
    (let sanitizedParams = validateAndSanitizeParams (number_repr w) params
     in \<lparr>url = COURTLISTENER_API_BASE @ endpoint,
         searchParams = filter (\<lambda>(key, val). val \<noteq> []) sanitizedParams,
         headers = [(js ''User-Agent'', USER_AGENT w), (js ''Accept'', js ''application/json'')]
           @ (case authToken of
                Some t \<Rightarrow> if t \<noteq> [] then [(js ''Authorization'', js ''Token '' @ t)] else []
              | None \<Rightarrow> [])\<rparr>)"

definition try_block ::
  "world \<Rightarrow> RateLimiter \<Rightarrow> jsstring \<Rightarrow> (jsstring \<times> jsvalue) list \<Rightarrow> jsstring option
     \<Rightarrow> (thrown + jsvalue) \<times> RateLimiter \<times> jsstring list" where
  "try_block w rateLimiter endpoint params authToken =
    (if truthy_string authToken \<and> \<not> validateApiToken authToken
     then (Inr Null, rateLimiter, [js ''Invalid API token format provided''])
     else
       case isAllowed rateLimiter (clientId authToken) (Date_now w) of
         (False, rl) \<Rightarrow> (Inr Null, rl, [js ''Rate limit exceeded for client''])
       | (True, rl) \<Rightarrow>
           (case fetch w (build_request w endpoint params authToken) of
              Rejects e \<Rightarrow> (Inl e, rl, [])
            | Responds status body \<Rightarrow>
                if \<not> (200 \<le> status \<and> status \<le> 299)
                then (Inr Null, rl, [status_message status])
                else (case body of
                        Inl e \<Rightarrow> (Inl e, rl, [])
                      | Inr data \<Rightarrow> (Inr (normalizeApiResponse data), rl, []))))"

text \<open>The \<open>catch\<close> block logs by the kind of the thrown value and returns \<open>null\<close>.\<close>

definition catch_message :: "thrown \<Rightarrow> jsstring" where
  "catch_message e =
    (case e of
       Error name \<Rightarrow> if name = js ''AbortError'' then js ''Request timeout''
                     else js ''Network error occurred''
     | NonError \<Rightarrow> js ''Unknown error occurred'')"

definition makeCourtListenerRequest ::
  "world \<Rightarrow> RateLimiter \<Rightarrow> jsstring \<Rightarrow> (jsstring \<times> jsvalue) list \<Rightarrow> jsstring option
     \<Rightarrow> settled \<times> RateLimiter \<times> jsstring list" where
  "makeCourtListenerRequest w rateLimiter endpoint params authToken =
    (case try_block w rateLimiter endpoint params authToken of
       (Inr v, rl, logged) \<Rightarrow> (Fulfilled v, rl, logged)
     | (Inl e, rl, logged) \<Rightarrow> (Fulfilled Null, rl, logged @ [catch_message e]))"

section \<open>Auxiliary notions for the properties\<close>

text \<open>The timestamps recorded for an identity; none when the identity has no entry.\<close>

definition stored :: "RateLimiter \<Rightarrow> jsstring \<Rightarrow> int list" where
  "stored rl a = (case requests rl a of None \<Rightarrow> [] | Some ts \<Rightarrow> ts)"

text \<open>A world in which every \<open>fetch\<close> has the given outcome.\<close>

definition world_with :: "fetched \<Rightarrow> world" where
  "world_with outcome =
    \<lparr>Date_now = 1000000, USER_AGENT = js ''CourtListener-MCP-Server/1.0'',
     number_repr = (\<lambda>q. []), fetch = (\<lambda>req. outcome)\<rparr>"

text \<open>A limiter with the default settings whose anonymous identity has used its 100 slots.\<close>

definition exhausted_limiter :: RateLimiter where
  "exhausted_limiter =
    \<lparr>requests = [js ''anonymous'' \<mapsto> replicate 100 1000000], maxRequests = 100, windowMs = 60000\<rparr>"

text \<open>
  Case-insensitive occurrence of an ASCII word \<open>w\<close>: at the head of a string, and
  anywhere in it.  Letters are compared up to ASCII case, as flag \<open>i\<close> does.
\<close>

fun ci_prefix :: "jsstring \<Rightarrow> jsstring \<Rightarrow> bool" where
  "ci_prefix [] s = True"
| "ci_prefix (p # ps) [] = False"
| "ci_prefix (p # ps) (c # cs) = (canon p = canon c \<and> ci_prefix ps cs)"

fun contains_ci :: "jsstring \<Rightarrow> jsstring \<Rightarrow> bool" where
  "contains_ci w [] = ci_prefix w []"
| "contains_ci w (c # cs) = (ci_prefix w (c # cs) \<or> contains_ci w cs)"

text \<open>An occurrence of \<open>w\<close> in \<open>r @ t\<close> that starts inside \<open>r\<close>.\<close>

fun occurs_from :: "jsstring \<Rightarrow> jsstring \<Rightarrow> jsstring \<Rightarrow> bool" where
  "occurs_from w [] t = False"
| "occurs_from w (c # r) t = (ci_prefix w (c # r @ t) \<or> occurs_from w r t)"

definition is_digit :: "code_unit \<Rightarrow> bool" where
  "is_digit c = (0x30 \<le> c \<and> c \<le> 0x39)"

text \<open>
  The two stages of \<open>sanitizeString\<close> before the truncation: the five removals, and
  one redaction step for a word.
\<close>

definition strip_patterns :: "jsstring \<Rightarrow> jsstring" where
  "strip_patterns input =
    replace_g True (lit ''on'' @ [Atom WordChar Plus, Atom Space Star, Atom (Chr 0x3D) One]) []
      (replace_g True (lit ''vbscript:'') []
        (replace_g True (lit ''data:'') []
          (replace_g True (lit ''javascript:'') []
            (replace_g False [Atom (Class dangerous_chars) One] [] input))))"

definition redact :: "string \<Rightarrow> jsstring \<Rightarrow> jsstring" where
  "redact w s = replace_g True (lit w @ [Atom Digit Star]) REDACTED s"

text \<open>
  \<open>marked w s s'\<close>: the string \<open>s'\<close> arises from \<open>s\<close> by replacing some
  case-insensitive occurrences of the word \<open>w\<close>, each together with all the digits
  that follow it, by the marker, and copying every other code unit.
\<close>

inductive marked :: "jsstring \<Rightarrow> jsstring \<Rightarrow> jsstring \<Rightarrow> bool" for w where
  marked_Nil: "marked w [] []"
| marked_copy: "marked w s s' \<Longrightarrow> marked w (c # s) (c # s')"
| marked_redact:
    "length k = length w \<Longrightarrow> ci_prefix w k \<Longrightarrow> list_all is_digit ds
      \<Longrightarrow> s = [] \<or> \<not> is_digit (hd s) \<Longrightarrow> marked w s s'
      \<Longrightarrow> marked w (k @ ds @ s) (REDACTED @ s')"

text \<open>What \<open>validateAndSanitizeParams\<close> stores for a value, if anything.\<close>

definition entry_string :: "(rat \<Rightarrow> jsstring) \<Rightarrow> jsvalue \<Rightarrow> jsstring option" where
  "entry_string repr v =
    (case v of
       Str s \<Rightarrow> Some (sanitizeString s)
     | Num n \<Rightarrow> Some (Number_toString repr n)
     | Bool b \<Rightarrow> Some (Boolean_toString b)
     | _ \<Rightarrow> None)"

section \<open>Credential format\<close>

lemma rmatch_exactly_end:
  "rmatch ic [Atom a (Exactly n), EndAnchor] s =
     (if length s = n \<and> (\<forall>c\<in>set s. atom_matches ic a c) then Some n else None)"
proof (induction n arbitrary: s)
  case 0
  then show ?case by (cases s) auto
next
  case (Suc n)
  then show ?case by (cases s) auto
qed

lemma in_hex_lower:
  "in_ranges hex_lower c \<longleftrightarrow> (0x61 \<le> c \<and> c \<le> 0x66) \<or> (0x30 \<le> c \<and> c \<le> 0x39)"
  by (simp add: in_ranges_def hex_lower_def)

text \<open>
  Claim C6.  \<open>validateApiToken\<close> returns true for an absent credential and for the
  empty string; for a present non-empty credential it returns true exactly when the
  credential consists of exactly 40 code units, each in \<open>a-f\<close> or \<open>0-9\<close>.  It is a
  total function with a boolean result.
\<close>

theorem validateApiToken_format:
  "validateApiToken None \<and> validateApiToken (Some []) \<and>
   (t \<noteq> [] \<longrightarrow>
      validateApiToken (Some t) =
        (length t = 40 \<and> (\<forall>c\<in>set t. (0x61 \<le> c \<and> c \<le> 0x66) \<or> (0x30 \<le> c \<and> c \<le> 0x39))))"
  by (simp add: validateApiToken_def test_from_start_def rmatch_exactly_end in_hex_lower)

theorem validateApiToken_format_witness:
  "validateApiToken (Some (js (replicate 40 CHR ''a''))) \<and>
   \<not> validateApiToken (Some (js (replicate 39 CHR ''a''))) \<and>
   \<not> validateApiToken (Some (js (replicate 41 CHR ''a''))) \<and>
   \<not> validateApiToken (Some (js (replicate 40 CHR ''A''))) \<and>
   \<not> validateApiToken (Some (js (CHR ''g'' # replicate 39 CHR ''a''))) \<and>
   \<not> validateApiToken (Some (js ''../../etc/passwd''))"
  using validateApiToken_format [of "js (replicate 40 CHR ''a'')"]
    validateApiToken_format [of "js (replicate 39 CHR ''a'')"]
    validateApiToken_format [of "js (replicate 41 CHR ''a'')"]
    validateApiToken_format [of "js (replicate 40 CHR ''A'')"]
    validateApiToken_format [of "js (CHR ''g'' # replicate 39 CHR ''a'')"]
    validateApiToken_format [of "js ''../../etc/passwd''"]
  by (simp add: js_def)

section \<open>The window of the rate limiter\<close>

lemma calls_Cons_snd:
  "snd (calls rl ((i, t) # rest)) = snd (calls (snd (isAllowed rl i t)) rest)"
  by (simp split: prod.splits)

lemma calls_Cons_fst:
  "fst (calls rl ((i, t) # rest)) = fst (isAllowed rl i t) # fst (calls (snd (isAllowed rl i t)) rest)"
  by (simp split: prod.splits)

lemma isAllowed_settings:
  "maxRequests (snd (isAllowed rl a now)) = maxRequests rl"
  "windowMs (snd (isAllowed rl a now)) = windowMs rl"
  by (simp_all add: isAllowed_def Let_def)

lemma calls_settings:
  "maxRequests (snd (calls rl cs)) = maxRequests rl \<and> windowMs (snd (calls rl cs)) = windowMs rl"
proof (induction cs arbitrary: rl)
  case Nil
  then show ?case by simp
next
  case (Cons c cs)
  obtain i t where c: "c = (i, t)" by (cases c)
  show ?case unfolding c calls_Cons_snd using Cons.IH [of "snd (isAllowed rl i t)"]
    by (simp add: isAllowed_settings)
qed

lemma isAllowed_fst:
  "fst (isAllowed rl a now) = (int (length (evict (now - windowMs rl) (stored rl a))) < maxRequests rl)"
  by (auto simp add: isAllowed_def stored_def Let_def split: option.splits)

lemma isAllowed_stored:
  "requests (snd (isAllowed rl a now)) a =
     Some (if fst (isAllowed rl a now)
           then evict (now - windowMs rl) (stored rl a) @ [now]
           else evict (now - windowMs rl) (stored rl a))"
  by (auto simp add: isAllowed_def stored_def Let_def split: option.splits)

lemma isAllowed_other:
  "b \<noteq> a \<Longrightarrow> requests (snd (isAllowed rl a now)) b = requests rl b"
  by (simp add: isAllowed_def Let_def)

lemma isAllowed_fresh:
  "requests rl b = None \<Longrightarrow> 0 < maxRequests rl \<Longrightarrow> fst (isAllowed rl b now)"
  by (simp add: isAllowed_def Let_def)

lemma evict_keep: "ts = [] \<or> \<not> hd ts < ws \<Longrightarrow> evict ws ts = ts"
  by (cases ts) auto

lemma evict_length: "length (evict ws ts) \<le> length ts"
  by (induction ts) auto

lemma evict_head: "ts \<noteq> [] \<Longrightarrow> hd ts < ws \<Longrightarrow> length (evict ws ts) < length ts"
  using evict_length [of ws "tl ts"] by (cases ts) auto

lemma evict_all: "\<forall>t\<in>set ts. t < ws \<Longrightarrow> evict ws ts = []"
  by (induction ts) auto

lemma sorted_between:
  "sorted (ts :: int list) \<Longrightarrow> t \<in> set ts \<Longrightarrow> hd ts \<le> t \<and> t \<le> last ts"
  by (induction ts) (auto split: if_splits)

text \<open>
  Calls for one identity whose clock readings lie within one window of the timestamps
  already recorded, and which fit under the maximum, are all admitted and recorded in
  order; nothing is evicted.
\<close>

lemma calls_in_window:
  assumes "stored rl a = old"
    and "\<forall>s\<in>set (old @ ts). \<forall>t\<in>set ts. t - s \<le> windowMs rl"
    and "int (length (old @ ts)) \<le> maxRequests rl"
  shows "fst (calls rl (map (Pair a) ts)) = replicate (length ts) True
       \<and> stored (snd (calls rl (map (Pair a) ts))) a = old @ ts"
  using assms
proof (induction ts arbitrary: rl old)
  case Nil
  then show ?case by simp
next
  case (Cons t ts)
  let ?rl = "snd (isAllowed rl a t)"
  have keep: "evict (t - windowMs rl) old = old"
  proof (rule evict_keep, cases old)
    case Nil
    then show "old = [] \<or> \<not> hd old < t - windowMs rl" by simp
  next
    case (Cons s ss)
    with Cons.prems(2) have "t - s \<le> windowMs rl" by simp
    with Cons show "old = [] \<or> \<not> hd old < t - windowMs rl" by simp
  qed
  have ok: "fst (isAllowed rl a t)"
    using Cons.prems(1,3) keep by (simp add: isAllowed_fst)
  have st: "stored ?rl a = old @ [t]"
    using isAllowed_stored [of rl a t] ok keep Cons.prems(1) by (simp add: stored_def)
  have "fst (calls ?rl (map (Pair a) ts)) = replicate (length ts) True
       \<and> stored (snd (calls ?rl (map (Pair a) ts))) a = (old @ [t]) @ ts"
  proof (rule Cons.IH [OF st])
    show "\<forall>s\<in>set ((old @ [t]) @ ts). \<forall>t\<in>set ts. t - s \<le> windowMs ?rl"
      using Cons.prems(2) by (auto simp add: isAllowed_settings)
    show "int (length ((old @ [t]) @ ts)) \<le> maxRequests ?rl"
      using Cons.prems(3) by (simp add: isAllowed_settings)
  qed
  then show ?case using ok by (simp add: calls_Cons_fst calls_Cons_snd del: calls.simps)
qed

lemma calls_other:
  "\<forall>(i, t)\<in>set cs. i \<noteq> b \<Longrightarrow> requests (snd (calls rl cs)) b = requests rl b"
proof (induction cs arbitrary: rl)
  case Nil
  then show ?case by simp
next
  case (Cons c cs)
  obtain i t where c: "c = (i, t)" by (cases c)
  from Cons.prems c have "i \<noteq> b" by simp
  then have "requests (snd (isAllowed rl i t)) b = requests rl b"
    by (rule isAllowed_other [OF not_sym])
  moreover have "requests (snd (calls (snd (isAllowed rl i t)) cs)) b = requests (snd (isAllowed rl i t)) b"
    using Cons.IH Cons.prems by simp
  ultimately show ?case unfolding c calls_Cons_snd by simp
qed

text \<open>
  Claim C3, amended.  For a limiter with \<open>maxRequests = 100\<close> and \<open>windowMs = 60000\<close>
  and an identity without recorded calls, 100 calls at non-decreasing clock readings
  that span at most 60000 ms all return true and are recorded in order.  A further call
  while no more than 60000 ms have passed since the oldest recorded timestamp returns
  false and leaves the limiter as it was.  Once \<^emph>\<open>more than\<close> 60000 ms have passed
  since the oldest recorded timestamp, the next call returns true: the timestamps
  older than \<open>now - 60000\<close>, the oldest among them, have been evicted and \<open>now\<close> is
  appended; once more than 60000 ms have passed since the newest one too, all prior
  timestamps have been evicted.
\<close>

theorem window_boundary:
  assumes "requests rl a = None" and "maxRequests rl = 100" and "windowMs rl = 60000"
    and "length ts = 100" and "sorted ts" and "last ts - hd ts \<le> 60000"
  shows "fst (calls rl (map (Pair a) ts)) = replicate 100 True
       \<and> requests (snd (calls rl (map (Pair a) ts))) a = Some ts
       \<and> (now - hd ts \<le> 60000 \<longrightarrow>
            isAllowed (snd (calls rl (map (Pair a) ts))) a now = (False, snd (calls rl (map (Pair a) ts))))
       \<and> (60000 < now - hd ts \<longrightarrow>
            fst (isAllowed (snd (calls rl (map (Pair a) ts))) a now)
            \<and> requests (snd (isAllowed (snd (calls rl (map (Pair a) ts))) a now)) a
                = Some (evict (now - 60000) ts @ [now]))
       \<and> (60000 < now - last ts \<longrightarrow>
            requests (snd (isAllowed (snd (calls rl (map (Pair a) ts))) a now)) a = Some [now])"
proof -
  let ?rl = "snd (calls rl (map (Pair a) ts))"
  have ne: "ts \<noteq> []" using assms(4) by auto
  have span: "\<forall>s\<in>set ([] @ ts). \<forall>t\<in>set ts. t - s \<le> windowMs rl"
  proof (intro ballI)
    fix s t assume "s \<in> set ([] @ ts)" "t \<in> set ts"
    then have "hd ts \<le> s" "t \<le> last ts" using sorted_between [OF assms(5)] by auto
    then show "t - s \<le> windowMs rl" using assms(3,6) by simp
  qed
  have run: "fst (calls rl (map (Pair a) ts)) = replicate (length ts) True
       \<and> stored ?rl a = [] @ ts"
    by (rule calls_in_window [OF _ span]) (simp_all add: stored_def assms)
  then have st: "stored ?rl a = ts" by simp
  then have req: "requests ?rl a = Some ts" using ne by (simp add: stored_def split: option.splits)
  have cfg: "maxRequests ?rl = 100" "windowMs ?rl = 60000"
    using calls_settings [of rl "map (Pair a) ts"] assms(2,3) by simp_all
  have rejected: "isAllowed ?rl a now = (False, ?rl)" if "now - hd ts \<le> 60000"
  proof -
    have "evict (now - 60000) ts = ts" using that by (intro evict_keep) simp
    then show ?thesis using req cfg assms(4)
      by (simp add: isAllowed_def Let_def map_upd_triv)
  qed
  have admitted: "fst (isAllowed ?rl a now)
      \<and> requests (snd (isAllowed ?rl a now)) a = Some (evict (now - 60000) ts @ [now])"
    if "60000 < now - hd ts"
  proof -
    have "length (evict (now - 60000) ts) < length ts" using that ne by (intro evict_head) simp_all
    then have "fst (isAllowed ?rl a now)" using st cfg assms(4) by (simp add: isAllowed_fst)
    then show ?thesis using isAllowed_stored [of ?rl a now] st cfg by simp
  qed
  have cleared: "requests (snd (isAllowed ?rl a now)) a = Some [now]" if "60000 < now - last ts"
  proof -
    have "\<forall>t\<in>set ts. t < now - 60000" using that sorted_between [OF assms(5)] by fastforce
    then have e: "evict (now - 60000) ts = []" by (rule evict_all)
    have "hd ts \<le> last ts" using sorted_between [OF assms(5), of "hd ts"] ne by simp
    then have "60000 < now - hd ts" using that by simp
    then show ?thesis using admitted e by simp
  qed
  show ?thesis using run req rejected admitted cleared assms(4) by simp
qed

theorem window_boundary_witness:
  "fst (calls (new_RateLimiter 100 60000) (map (Pair (js ''client'')) (replicate 100 1000000))) = replicate 100 True
   \<and> isAllowed (snd (calls (new_RateLimiter 100 60000) (map (Pair (js ''client'')) (replicate 100 1000000)))) (js ''client'') 1000000
       = (False, snd (calls (new_RateLimiter 100 60000) (map (Pair (js ''client'')) (replicate 100 1000000))))
   \<and> fst (isAllowed (snd (calls (new_RateLimiter 100 60000) (map (Pair (js ''client'')) (replicate 100 1000000)))) (js ''client'') 1061000)
   \<and> requests (snd (isAllowed (snd (calls (new_RateLimiter 100 60000) (map (Pair (js ''client'')) (replicate 100 1000000)))) (js ''client'') 1061000)) (js ''client'')
       = Some [1061000]"
proof -
  have h: "requests (new_RateLimiter 100 60000) (js ''client'') = None"
    "maxRequests (new_RateLimiter 100 60000) = 100" "windowMs (new_RateLimiter 100 60000) = 60000"
    "length (replicate 100 (1000000::int)) = 100" "sorted (replicate 100 (1000000::int))"
    "last (replicate 100 (1000000::int)) - hd (replicate 100 1000000) \<le> 60000"
    by (simp_all add: new_RateLimiter_def sorted_replicate)
  have a: "1000000 - hd (replicate 100 (1000000::int)) \<le> 60000" by simp
  have b: "60000 < 1061000 - last (replicate 100 (1000000::int))" by simp
  have c: "60000 < 1061000 - hd (replicate 100 (1000000::int))" by simp
  show ?thesis
    using window_boundary [OF h, of 1000000] window_boundary [OF h, of 1061000] a b c
    by blast
qed

text \<open>
  The claim as written fails at the boundary: after 100 calls at clock reading 0,
  exactly 60000 ms past the oldest recorded timestamp the next call is still rejected,
  because the loop evicts only timestamps strictly below \<open>now - windowMs\<close>.
\<close>

theorem window_boundary_counterexample:
  "fst (isAllowed (snd (calls (new_RateLimiter 100 60000) (map (Pair (js ''client'')) (replicate 100 0))))
      (js ''client'') 60000) = False"
proof -
  let ?rl = "new_RateLimiter 100 60000"
  have "stored (snd (calls ?rl (map (Pair (js ''client'')) (replicate 100 0)))) (js ''client'') = [] @ replicate 100 0"
    by (rule calls_in_window [THEN conjunct2]) (simp_all add: stored_def new_RateLimiter_def)
  moreover have "evict 0 (replicate 100 0) = replicate 100 0" by (rule evict_keep) simp
  ultimately show ?thesis
    using calls_settings [of ?rl "map (Pair (js ''client'')) (replicate 100 0)"]
    by (simp add: isAllowed_fst new_RateLimiter_def)
qed

text \<open>
  Claim C8.  A call to \<open>isAllowed\<close> for one identity leaves the recorded timestamps of
  every other identity as they were.  Hence after any sequence of calls for other
  identities (such as the 100 admitted calls that exhaust identity A) the entry of
  identity B is unchanged, and the first call for a B without recorded calls returns
  true whenever the maximum is positive.
\<close>

theorem identities_are_independent:
  "(b \<noteq> a \<longrightarrow> requests (snd (isAllowed rl a now)) b = requests rl b) \<and>
   ((\<forall>(i, t)\<in>set cs. i \<noteq> b) \<longrightarrow>
      requests (snd (calls rl cs)) b = requests rl b \<and>
      (requests rl b = None \<and> 0 < maxRequests rl \<longrightarrow> fst (isAllowed (snd (calls rl cs)) b now')))"
  using isAllowed_other [of b a rl now] calls_other [of cs b rl]
    isAllowed_fresh [of "snd (calls rl cs)" b now'] calls_settings [of rl cs]
  by auto

theorem identities_are_independent_witness:
  "requests (snd (isAllowed (new_RateLimiter 100 60000) (js ''A'') 1000000)) (js ''B'') = None
   \<and> requests (snd (calls (new_RateLimiter 100 60000) (replicate 100 (js ''A'', 1000000)))) (js ''B'') = None
   \<and> fst (isAllowed (snd (calls (new_RateLimiter 100 60000) (replicate 100 (js ''A'', 1000000)))) (js ''B'') 1000000)"
proof -
  have ne: "js ''B'' \<noteq> js ''A''" by (simp add: js_def)
  have others: "\<forall>(i, t)\<in>set (replicate 100 (js ''A'', 1000000::int)). i \<noteq> js ''B''"
    using ne by auto
  have fresh: "requests (new_RateLimiter 100 60000) (js ''B'') = None \<and> 0 < maxRequests (new_RateLimiter 100 60000)"
    by (simp add: new_RateLimiter_def)
  show ?thesis
    using identities_are_independent [of "js ''B''" "js ''A''" "new_RateLimiter 100 60000" 1000000
        "replicate 100 (js ''A'', 1000000)" 1000000] ne others fresh
    by simp
qed

section \<open>Failures of the request helper\<close>

lemma evict_replicate: "\<not> t < ws \<Longrightarrow> evict ws (replicate n t) = replicate n t"
  by (cases n) auto

lemma exhausted_limiter_rejects:
  "\<not> fst (isAllowed exhausted_limiter (js ''anonymous'') 1000000)"
  by (simp add: isAllowed_fst exhausted_limiter_def stored_def evict_replicate)

text \<open>
  Claim C4.  In each of the six failure scenarios (a present credential of the wrong
  format, a rejection by the local rate limiter, \<open>fetch\<close> rejecting with an error,
  \<open>fetch\<close> rejecting with an \<open>AbortError\<close> after the timeout, a response whose
  status is not in 200..299, a response whose body is not valid JSON) the promise
  returned by \<open>makeCourtListenerRequest\<close> is fulfilled with \<open>null\<close>: the same value
  in every scenario, carrying no status code and no error detail, and never a
  rejection.
\<close>

theorem failures_return_null:
  assumes "(truthy_string authToken \<and> \<not> validateApiToken authToken)
         \<or> \<not> fst (isAllowed rl (clientId authToken) (Date_now w))
         \<or> fetch w (build_request w endpoint params authToken) = Rejects (Error name)
         \<or> fetch w (build_request w endpoint params authToken) = Rejects (Error (js ''AbortError''))
         \<or> (fetch w (build_request w endpoint params authToken) = Responds status body
              \<and> \<not> (200 \<le> status \<and> status \<le> 299))
         \<or> fetch w (build_request w endpoint params authToken) = Responds status' (Inl e)"
  shows "fst (makeCourtListenerRequest w rl endpoint params authToken) = Fulfilled Null"
proof (cases "truthy_string authToken \<and> \<not> validateApiToken authToken")
  case True
  then show ?thesis by (simp add: makeCourtListenerRequest_def try_block_def)
next
  case valid: False
  obtain ok rl' where a: "isAllowed rl (clientId authToken) (Date_now w) = (ok, rl')"
    by (cases "isAllowed rl (clientId authToken) (Date_now w)")
  show ?thesis
  proof (cases ok)
    case False
    with valid a show ?thesis by (simp add: makeCourtListenerRequest_def try_block_def)
  next
    case True
    with assms valid a show ?thesis
      by (auto simp add: makeCourtListenerRequest_def try_block_def split: fetched.splits sum.splits)
  qed
qed

theorem failures_return_null_witness:
  "fst (makeCourtListenerRequest (world_with (Responds 200 (Inr (Obj [])))) (new_RateLimiter 100 60000)
          (js ''/courts/'') [] (Some (js ''abc123''))) = Fulfilled Null
   \<and> fst (makeCourtListenerRequest (world_with (Responds 200 (Inr (Obj [])))) exhausted_limiter
          (js ''/courts/'') [] None) = Fulfilled Null
   \<and> fst (makeCourtListenerRequest (world_with (Rejects (Error (js ''TypeError'')))) (new_RateLimiter 100 60000)
          (js ''/courts/'') [] None) = Fulfilled Null
   \<and> fst (makeCourtListenerRequest (world_with (Rejects (Error (js ''AbortError'')))) (new_RateLimiter 100 60000)
          (js ''/courts/'') [] None) = Fulfilled Null
   \<and> fst (makeCourtListenerRequest (world_with (Responds 500 (Inr (Obj [])))) (new_RateLimiter 100 60000)
          (js ''/courts/'') [] None) = Fulfilled Null
   \<and> fst (makeCourtListenerRequest (world_with (Responds 200 (Inl (Error (js ''SyntaxError''))))) (new_RateLimiter 100 60000)
          (js ''/courts/'') [] None) = Fulfilled Null"
proof -
  have bad: "truthy_string (Some (js ''abc123'')) \<and> \<not> validateApiToken (Some (js ''abc123''))"
    by (simp add: truthy_string_def validateApiToken_def test_from_start_def rmatch_exactly_end js_def)
  have full: "\<not> fst (isAllowed exhausted_limiter (clientId None) (Date_now (world_with (Responds 200 (Inr (Obj []))))))"
    using exhausted_limiter_rejects by (simp add: clientId_def world_with_def)
  have f: "fetch (world_with outcome) req = outcome" for outcome req
    by (simp add: world_with_def)
  have s: "\<not> (200 \<le> (500::nat) \<and> (500::nat) \<le> 299)" by simp
  show ?thesis
    using failures_return_null [of "Some (js ''abc123'')" "new_RateLimiter 100 60000"
            "world_with (Responds 200 (Inr (Obj [])))" "js ''/courts/''" "[]", OF disjI1, OF bad]
      failures_return_null [of None exhausted_limiter
            "world_with (Responds 200 (Inr (Obj [])))" "js ''/courts/''" "[]", OF disjI2, OF disjI1, OF full]
      failures_return_null [of None "new_RateLimiter 100 60000"
            "world_with (Rejects (Error (js ''TypeError'')))" "js ''/courts/''" "[]" "js ''TypeError''",
            OF disjI2, OF disjI2, OF disjI1, OF f]
      failures_return_null [of None "new_RateLimiter 100 60000"
            "world_with (Rejects (Error (js ''AbortError'')))" "js ''/courts/''" "[]",
            OF disjI2, OF disjI2, OF disjI2, OF disjI1, OF f]
      failures_return_null [of None "new_RateLimiter 100 60000"
            "world_with (Responds 500 (Inr (Obj [])))" "js ''/courts/''" "[]" _ 500 "Inr (Obj [])",
            OF disjI2, OF disjI2, OF disjI2, OF disjI2, OF disjI1, OF conjI, OF f s]
      failures_return_null [of None "new_RateLimiter 100 60000"
            "world_with (Responds 200 (Inl (Error (js ''SyntaxError''))))" "js ''/courts/''" "[]" _ _ _ 200 "Error (js ''SyntaxError'')",
            OF disjI2, OF disjI2, OF disjI2, OF disjI2, OF disjI2, OF f]
    by blast
qed

text \<open>
  Claim C10.  With a present credential that fails the format check,
  \<open>makeCourtListenerRequest\<close> returns \<open>null\<close> before the rate limiter is consulted:
  the limiter after the call is the limiter before it, for every identity.
\<close>

theorem invalid_credential_before_rate_limiter:
  assumes "t \<noteq> []" and "\<not> validateApiToken (Some t)"
  shows "makeCourtListenerRequest w rl endpoint params (Some t)
           = (Fulfilled Null, rl, [js ''Invalid API token format provided''])"
  using assms by (simp add: makeCourtListenerRequest_def try_block_def truthy_string_def)

theorem invalid_credential_before_rate_limiter_witness:
  "makeCourtListenerRequest (world_with (Responds 200 (Inr (Obj [])))) exhausted_limiter (js ''/dockets/'') []
      (Some (js ''F8B2C598D273B1C0F5012236DCC93CA045F8B81A''))
     = (Fulfilled Null, exhausted_limiter, [js ''Invalid API token format provided''])"
proof -
  have ne: "js ''F8B2C598D273B1C0F5012236DCC93CA045F8B81A'' \<noteq> []" by (simp add: js_def)
  have bad: "\<not> validateApiToken (Some (js ''F8B2C598D273B1C0F5012236DCC93CA045F8B81A''))"
    by (simp add: validateApiToken_def test_from_start_def rmatch_exactly_end js_def in_ranges_def hex_lower_def)
  show ?thesis by (rule invalid_credential_before_rate_limiter [OF ne bad])
qed

section \<open>Matching and replacing\<close>

lemma rmatch_le: "rmatch ic ps s = Some n \<Longrightarrow> n \<le> length s"
  by (induction ic ps s arbitrary: n rule: rmatch.induct) (auto split: if_splits option.splits)

lemma in_digit_ranges: "in_ranges digit_ranges c = is_digit c"
  by (simp add: in_ranges_def digit_ranges_def is_digit_def)

lemma rmatch_digit_star:
  "rmatch ic [Atom Digit Star] s = Some (length (takeWhile is_digit s))"
  by (induction s) (simp_all add: in_digit_ranges)

lemma rmatch_lit:
  "rmatch True (lit w @ ps) s =
     (if ci_prefix (js w) s then map_option (\<lambda>n. length w + n) (rmatch True ps (drop (length w) s))
      else None)"
proof (induction w arbitrary: s)
  case Nil
  then show ?case by (cases "rmatch True ps s") (simp_all add: lit_def js_def)
next
  case (Cons x w)
  have IH: "rmatch True (map (\<lambda>c. Atom (Chr (of_char c)) One) w @ ps) t =
     (if ci_prefix (map of_char w) t then map_option (\<lambda>n. length w + n) (rmatch True ps (drop (length w) t))
      else None)" for t
    using Cons.IH [of t] by (simp add: lit_def js_def)
  show ?case
  proof (cases s)
    case Nil
    then show ?thesis by (simp add: lit_def js_def)
  next
    case (Cons c cs)
    then show ?thesis
      by (cases "rmatch True ps (drop (length w) cs)") (simp_all add: lit_def js_def IH)
  qed
qed

lemma rmatch_redact:
  "rmatch True (lit w @ [Atom Digit Star]) s =
     (if ci_prefix (js w) s then Some (length w + length (takeWhile is_digit (drop (length w) s)))
      else None)"
  by (simp add: rmatch_lit rmatch_digit_star)


lemma rmatch_Nil_None:
  assumes "\<forall>t. rmatch ic ps t \<noteq> Some 0"
  shows "rmatch ic ps [] = None"
proof (cases "rmatch ic ps []")
  case None
  then show ?thesis .
next
  case (Some n)
  then have "n = 0" using rmatch_le [of ic ps "[]" n] by simp
  with Some assms show ?thesis by simp
qed

lemma ci_prefix_pullback:
  assumes "\<forall>t. rmatch ic ps t \<noteq> Some 0" and "r \<noteq> []"
    and "\<forall>x\<in>set p. canon x \<noteq> canon (hd r)"
    and "ci_prefix p (replace_g ic ps r s)"
  shows "ci_prefix p s"
  using assms(3,4)
proof (induction p arbitrary: s)
  case Nil
  then show ?case by simp
next
  case (Cons x p)
  show ?case
  proof (cases s)
    case Nil
    with Cons.prems(2) show ?thesis by (simp add: rmatch_Nil_None [OF assms(1)])
  next
    case s: (Cons c cs)
    show ?thesis
    proof (cases "rmatch ic ps (c # cs)")
      case None
      with Cons.prems s have "canon x = canon c" "ci_prefix p (replace_g ic ps r cs)" by simp_all
      moreover from Cons.prems(1) have "\<forall>x\<in>set p. canon x \<noteq> canon (hd r)" by simp
      ultimately show ?thesis using Cons.IH s by simp
    next
      case (Some n)
      then obtain m where n: "n = Suc m" using assms(1) by (cases n) auto
      obtain r0 rs where r: "r = r0 # rs" using assms(2) by (cases r) auto
      from Cons.prems(2) s Some n r have "canon x = canon r0" by simp
      with Cons.prems(1) r show ?thesis by simp
    qed
  qed
qed

lemma contains_ci_append:
  "contains_ci w (r @ t) = (occurs_from w r t \<or> contains_ci w t)"
  by (induction r) auto

lemma ci_prefix_drop:
  "w \<noteq> [] \<Longrightarrow> \<not> contains_ci w s \<Longrightarrow> \<not> ci_prefix w (drop i s)"
proof (induction s arbitrary: i)
  case Nil
  then show ?case by (cases w) auto
next
  case (Cons c cs)
  then show ?case by (cases i) auto
qed

lemma contains_ci_replace_g:
  assumes "\<forall>t. rmatch ic ps t \<noteq> Some 0" and "r \<noteq> []" and "w \<noteq> []"
    and "\<forall>x\<in>set w. canon x \<noteq> canon (hd r)"
    and "\<forall>t. \<not> occurs_from w r t"
    and "\<forall>i. rmatch ic ps (drop i s) = None \<longrightarrow> \<not> ci_prefix w (drop i s)"
  shows "\<not> contains_ci w (replace_g ic ps r s)"
  using assms
proof (induction ic ps r s rule: replace_g.induct)
  case (1 ic ps r)
  obtain x w' where "w = x # w'" using "1.prems"(3) by (cases w) auto
  then show ?case using rmatch_Nil_None [OF "1.prems"(1)] by simp
next
  case (2 ic ps r c cs)
  note nonempty = "2.prems"(1) and r = "2.prems"(2) and heads = "2.prems"(4)
    and inside = "2.prems"(5) and covered = "2.prems"(6)
  obtain x w' where w: "w = x # w'" using "2.prems"(3) by (cases w) auto
  show ?case
  proof (cases "rmatch ic ps (c # cs)")
    case None
    have shift: "\<forall>i. rmatch ic ps (drop i cs) = None \<longrightarrow> \<not> ci_prefix w (drop i cs)"
    proof (intro allI)
      fix i show "rmatch ic ps (drop i cs) = None \<longrightarrow> \<not> ci_prefix w (drop i cs)"
        using covered [rule_format, of "Suc i"] by simp
    qed
    have rest: "\<not> contains_ci w (replace_g ic ps r cs)"
      by (rule "2.IH"(1) [OF None nonempty r "2.prems"(3) heads inside shift])
    have "\<not> ci_prefix w (c # cs)" using covered [rule_format, of 0] None by simp
    moreover have "ci_prefix w' (replace_g ic ps r cs) \<Longrightarrow> ci_prefix w' cs"
      by (rule ci_prefix_pullback [OF nonempty r]) (use heads w in auto)
    ultimately have "\<not> ci_prefix w (c # replace_g ic ps r cs)" using w by auto
    with rest None show ?thesis by simp
  next
    case (Some n)
    then obtain m where n: "n = Suc m" using nonempty by (cases n) auto
    have shift: "\<forall>i. rmatch ic ps (drop i (drop m cs)) = None \<longrightarrow> \<not> ci_prefix w (drop i (drop m cs))"
    proof (intro allI)
      fix i show "rmatch ic ps (drop i (drop m cs)) = None \<longrightarrow> \<not> ci_prefix w (drop i (drop m cs))"
        using covered [rule_format, of "Suc (i + m)"] by simp
    qed
    have rest: "\<not> contains_ci w (replace_g ic ps r (drop m cs))"
      using "2.IH"(3) [OF _ _ nonempty r "2.prems"(3) heads inside shift] Some n by simp
    show ?thesis using Some n rest inside by (simp add: contains_ci_append)
  qed
qed

lemma ci_prefix_take: "ci_prefix w (take n s) \<Longrightarrow> ci_prefix w s"
proof (induction w s arbitrary: n rule: ci_prefix.induct)
  case (3 p ps c cs)
  then show ?case by (cases n) auto
qed simp_all

lemma contains_ci_take: "w \<noteq> [] \<Longrightarrow> contains_ci w (take n s) \<Longrightarrow> contains_ci w s"
proof (induction s arbitrary: n)
  case Nil
  then show ?case by simp
next
  case (Cons c cs)
  show ?case
  proof (cases n)
    case 0
    with Cons.prems show ?thesis by (cases w) auto
  next
    case (Suc m)
    with Cons.prems have "ci_prefix w (take (Suc m) (c # cs)) \<or> contains_ci w (take m cs)" by simp
    then show ?thesis using ci_prefix_take [of w "Suc m" "c # cs"] Cons.IH [OF Cons.prems(1), of m] by auto
  qed
qed

lemma redact_Nil: "w \<noteq> [] \<Longrightarrow> redact w [] = []"
  by (cases w) (simp_all add: redact_def rmatch_redact js_def)

lemma redact_Cons:
  assumes "w \<noteq> []"
  shows "redact w (c # cs) =
     (if ci_prefix (js w) (c # cs)
      then REDACTED @ redact w (dropWhile is_digit (drop (length w) (c # cs)))
      else c # redact w cs)"
proof (cases "ci_prefix (js w) (c # cs)")
  case False
  then show ?thesis by (simp add: redact_def rmatch_redact)
next
  case True
  obtain x w' where w: "w = x # w'" using assms by (cases w) auto
  let ?d = "length (takeWhile is_digit (drop (length w') cs))"
  have m: "rmatch True (lit w @ [Atom Digit Star]) (c # cs) = Some (Suc (length w' + ?d))"
    using True by (simp add: rmatch_redact w)
  have "drop (length w' + ?d) cs = dropWhile is_digit (drop (length w') cs)"
    by (simp add: dropWhile_eq_drop add.commute)
  then show ?thesis using True m by (simp add: redact_def w)
qed

lemma ci_prefix_length: "ci_prefix w s \<Longrightarrow> length w \<le> length s"
  by (induction w s rule: ci_prefix.induct) auto

lemma ci_prefix_take_self: "ci_prefix w s \<Longrightarrow> ci_prefix w (take (length w) s)"
  by (induction w s rule: ci_prefix.induct) auto

lemma marked_redact_step:
  assumes "w \<noteq> []"
  shows "marked (js w) s (redact w s)"
proof (induction s rule: length_induct)
  case (1 s)
  show ?case
  proof (cases s)
    case Nil
    then show ?thesis using assms by (simp add: redact_Nil marked_Nil)
  next
    case (Cons c cs)
    show ?thesis
    proof (cases "ci_prefix (js w) s")
      case False
      have "marked (js w) cs (redact w cs)" using 1 Cons by simp
      then show ?thesis using False Cons assms by (simp add: redact_Cons marked_copy)
    next
      case True
      let ?k = "take (length w) s"
      let ?ds = "takeWhile is_digit (drop (length w) s)"
      let ?rest = "dropWhile is_digit (drop (length w) s)"
      have len: "length w \<le> length s" using ci_prefix_length [OF True] by (simp add: js_def)
      have split: "s = ?k @ ?ds @ ?rest" by simp
      have shorter: "length ?rest < length s"
      proof -
        have "length ?rest \<le> length (drop (length w) s)" by (rule length_dropWhile_le)
        also have "\<dots> < length s" using assms Cons by (cases w) auto
        finally show ?thesis .
      qed
      have "marked (js w) (?k @ ?ds @ ?rest) (REDACTED @ redact w ?rest)"
      proof (rule marked_redact)
        show "length ?k = length (js w)" using len by (simp add: js_def)
        show "ci_prefix (js w) ?k" using ci_prefix_take_self [OF True] by (simp add: js_def)
        show "list_all is_digit ?ds" by (simp add: list_all_iff) (meson set_takeWhileD)
        show "?rest = [] \<or> \<not> is_digit (hd ?rest)" using hd_dropWhile [of is_digit] by blast
        show "marked (js w) ?rest (redact w ?rest)" using 1 shorter by simp
      qed
      then have "marked (js w) s (REDACTED @ redact w ?rest)" using split by simp
      then show ?thesis using True Cons assms by (simp add: redact_Cons)
    qed
  qed
qed

lemma redact_nonempty_match:
  "w \<noteq> [] \<Longrightarrow> \<forall>t. rmatch True (lit w @ [Atom Digit Star]) t \<noteq> Some 0"
  by (cases w) (simp_all add: rmatch_redact)

lemma word_shape:
  assumes "w \<in> {''password'', ''secret'', ''token'', ''key''}"
  shows "js w \<noteq> []" and "\<forall>x\<in>set (js w). canon x \<noteq> canon (hd REDACTED)"
    and "\<forall>t. \<not> occurs_from (js w) REDACTED t"
  using assms by (auto simp add: js_def REDACTED_def canon_def)

lemma redact_clears:
  assumes "w \<in> {''password'', ''secret'', ''token'', ''key''}"
  shows "\<not> contains_ci (js w) (redact w s)"
  unfolding redact_def
proof (rule contains_ci_replace_g [OF _ _ word_shape [OF assms]])
  show "\<forall>t. rmatch True (lit w @ [Atom Digit Star]) t \<noteq> Some 0"
    using assms by (intro redact_nonempty_match) auto
  show "REDACTED \<noteq> []" by (simp add: REDACTED_def js_def)
  show "\<forall>i. rmatch True (lit w @ [Atom Digit Star]) (drop i s) = None \<longrightarrow> \<not> ci_prefix (js w) (drop i s)"
    by (simp add: rmatch_redact)
qed

lemma redact_preserves:
  assumes "w \<in> {''password'', ''secret'', ''token'', ''key''}" and "v \<noteq> []"
    and "\<not> contains_ci (js w) s"
  shows "\<not> contains_ci (js w) (redact v s)"
  unfolding redact_def
proof (rule contains_ci_replace_g [OF _ _ word_shape [OF assms(1)]])
  show "\<forall>t. rmatch True (lit v @ [Atom Digit Star]) t \<noteq> Some 0"
    using assms(2) by (rule redact_nonempty_match)
  show "REDACTED \<noteq> []" by (simp add: REDACTED_def js_def)
  show "\<forall>i. rmatch True (lit v @ [Atom Digit Star]) (drop i s) = None \<longrightarrow> \<not> ci_prefix (js w) (drop i s)"
    using ci_prefix_drop [OF word_shape(1) [OF assms(1)] assms(3)] by simp
qed

lemma sanitizeString_stages:
  "sanitizeString input =
     take 1000 (redact ''key'' (redact ''token'' (redact ''secret'' (redact ''password'' (strip_patterns input)))))"
  unfolding sanitizeString_def strip_patterns_def redact_def Let_def by (rule refl)

lemma redact_chain:
  assumes "w \<in> {''password'', ''secret'', ''token'', ''key''}"
  shows "\<not> contains_ci (js w) (redact ''key'' (redact ''token'' (redact ''secret'' (redact ''password'' s))))"
proof -
  have ne: "''password'' \<noteq> []" "''secret'' \<noteq> []" "''token'' \<noteq> []" "''key'' \<noteq> []" by simp_all
  note keep = redact_preserves [OF assms]
  consider "w = ''password''" | "w = ''secret''" | "w = ''token''" | "w = ''key''"
    using assms by blast
  then show ?thesis
  proof cases
    case 1
    have "\<not> contains_ci (js w) (redact ''password'' s)" using redact_clears [OF assms] 1 by simp
    then show ?thesis by (rule keep [OF ne(4) keep [OF ne(3) keep [OF ne(2)]]])
  next
    case 2
    have "\<not> contains_ci (js w) (redact ''secret'' (redact ''password'' s))"
      using redact_clears [OF assms] 2 by simp
    then show ?thesis by (rule keep [OF ne(4) keep [OF ne(3)]])
  next
    case 3
    have "\<not> contains_ci (js w) (redact ''token'' (redact ''secret'' (redact ''password'' s)))"
      using redact_clears [OF assms] 3 by simp
    then show ?thesis by (rule keep [OF ne(4)])
  next
    case 4
    then show ?thesis using redact_clears [OF assms] by simp
  qed
qed

lemma sanitizeString_clears:
  assumes "w \<in> {''password'', ''secret'', ''token'', ''key''}"
  shows "\<not> contains_ci (js w) (sanitizeString input)"
  unfolding sanitizeString_stages
  using contains_ci_take [OF word_shape(1) [OF assms]] redact_chain [OF assms] by blast

section \<open>Sanitisation of strings\<close>

lemma set_replace_g: "set (replace_g ic ps r s) \<subseteq> set s \<union> set r"
proof (induction ic ps r s rule: replace_g.induct)
  case (1 ic ps r)
  then show ?case by (auto split: option.splits)
next
  case (2 ic ps r c cs)
  show ?case
  proof (cases "rmatch ic ps (c # cs)")
    case None
    then show ?thesis using "2.IH"(1) by auto
  next
    case (Some n)
    show ?thesis
    proof (cases n)
      case 0
      then show ?thesis using Some "2.IH"(2) by auto
    next
      case (Suc m)
      have "set (drop m cs) \<subseteq> set cs" by (rule set_drop_subset)
      then show ?thesis using Some Suc "2.IH"(3) [OF Some Suc] by auto
    qed
  qed
qed

lemma strip_dangerous:
  "set (replace_g False [Atom (Class dangerous_chars) One] [] s) \<subseteq> {c \<in> set s. \<not> in_ranges dangerous_chars c}"
  by (induction s) auto

lemma in_dangerous_chars:
  "in_ranges dangerous_chars c \<longleftrightarrow> c \<in> {0x3C, 0x3E, 0x22, 0x27, 0x26}"
  by (auto simp add: in_ranges_def dangerous_chars_def)

text \<open>
  The part of the sanitisation contract that holds for every input: no code unit of
  the result is one of \<open>< > " ' &\<close>, and the result has at most 1000 code units.
\<close>

lemma sanitizeString_chars_and_length:
  "set (sanitizeString input) \<inter> {0x3C, 0x3E, 0x22, 0x27, 0x26} = {} \<and> length (sanitizeString input) \<le> 1000"
proof -
  let ?s1 = "replace_g False [Atom (Class dangerous_chars) One] [] input"
  let ?s2 = "replace_g True (lit ''javascript:'') [] ?s1"
  let ?s3 = "replace_g True (lit ''data:'') [] ?s2"
  let ?s4 = "replace_g True (lit ''vbscript:'') [] ?s3"
  let ?s5 = "replace_g True (lit ''on'' @ [Atom WordChar Plus, Atom Space Star, Atom (Chr 0x3D) One]) [] ?s4"
  let ?s6 = "replace_g True (lit ''password'' @ [Atom Digit Star]) REDACTED ?s5"
  let ?s7 = "replace_g True (lit ''secret'' @ [Atom Digit Star]) REDACTED ?s6"
  let ?s8 = "replace_g True (lit ''token'' @ [Atom Digit Star]) REDACTED ?s7"
  let ?s9 = "replace_g True (lit ''key'' @ [Atom Digit Star]) REDACTED ?s8"
  let ?D = "{0x3C, 0x3E, 0x22, 0x27, 0x26} :: code_unit set"
  have r: "set REDACTED \<inter> ?D = {}" by (simp add: REDACTED_def js_def)
  have "set ?s1 \<inter> ?D = {}" using strip_dangerous [of input] in_dangerous_chars by blast
  then have "set ?s2 \<inter> ?D = {}" using set_replace_g [of True "lit ''javascript:''" "[]" ?s1] by auto
  then have "set ?s3 \<inter> ?D = {}" using set_replace_g [of True "lit ''data:''" "[]" ?s2] by auto
  then have "set ?s4 \<inter> ?D = {}" using set_replace_g [of True "lit ''vbscript:''" "[]" ?s3] by auto
  then have "set ?s5 \<inter> ?D = {}"
    using set_replace_g [of True "lit ''on'' @ [Atom WordChar Plus, Atom Space Star, Atom (Chr 0x3D) One]" "[]" ?s4]
    by auto
  then have "set ?s6 \<inter> ?D = {}"
    using r set_replace_g [of True "lit ''password'' @ [Atom Digit Star]" REDACTED ?s5] by blast
  then have "set ?s7 \<inter> ?D = {}"
    using r set_replace_g [of True "lit ''secret'' @ [Atom Digit Star]" REDACTED ?s6] by blast
  then have "set ?s8 \<inter> ?D = {}"
    using r set_replace_g [of True "lit ''token'' @ [Atom Digit Star]" REDACTED ?s7] by blast
  then have "set ?s9 \<inter> ?D = {}"
    using r set_replace_g [of True "lit ''key'' @ [Atom Digit Star]" REDACTED ?s8] by blast
  then have "set (take 1000 ?s9) \<inter> ?D = {}" using set_take_subset [of 1000 ?s9] by blast
  then show ?thesis unfolding sanitizeString_def Let_def by simp
qed

text \<open>
  Claim C1.  The sanitised string is claimed to contain no case-insensitive occurrence
  of \<open>javascript:\<close>, \<open>data:\<close>, \<open>vbscript:\<close> or an \<open>on<word>=\<close> handler.
  Each pattern is removed in a single pass, and a later removal can join the two halves
  of a pattern that an earlier pass has already searched for: on the input
  \<open>javadata:script:\<close> the pass for \<open>javascript:\<close> finds nothing, the pass for
  \<open>data:\<close> removes the middle, and the result is \<open>javascript:\<close>.
\<close>

theorem sanitizeString_reassembles_javascript:
  "sanitizeString (js ''javadata:script:'') = js ''javascript:''
   \<and> contains_ci (js ''javascript:'') (sanitizeString (js ''javadata:script:''))"
  by code_simp

text \<open>
  Claim C5.  Sanitisation is claimed to be idempotent.  On the input
  \<open>davbscript:ta:\<close> the removal of \<open>vbscript:\<close> comes after the pass for
  \<open>data:\<close> and leaves \<open>data:\<close> behind; a second application removes it, so the
  second result is empty and differs from the first.
\<close>

theorem sanitizeString_not_idempotent:
  "sanitizeString (js ''davbscript:ta:'') = js ''data:''
   \<and> sanitizeString (sanitizeString (js ''davbscript:ta:'')) = []
   \<and> sanitizeString (sanitizeString (js ''davbscript:ta:'')) \<noteq> sanitizeString (js ''davbscript:ta:'')"
  by code_simp

text \<open>
  Claim C9, amended.  After its five removal steps and before the truncation to 1000
  code units, \<open>sanitizeString\<close> applies four replacement steps, for \<open>password\<close>,
  \<open>secret\<close>, \<open>token\<close> and \<open>key\<close> in this order.  Each step replaces
  case-insensitive occurrences of its word that are present at that point, together
  with all the digits that follow, by \<open>[REDACTED]\<close> and copies everything else, and no
  occurrence of the word is left after it; the sanitised string contains no
  case-insensitive occurrence of any of the four words.  The redaction needs no digits
  and fires inside unrelated words: \<open>monkey\<close> becomes \<open>mon[REDACTED]\<close>.
\<close>

theorem redaction_of_sensitive_words:
  "sanitizeString input =
     take 1000 (redact ''key'' (redact ''token'' (redact ''secret'' (redact ''password'' (strip_patterns input)))))
   \<and> (w \<in> {''password'', ''secret'', ''token'', ''key''} \<longrightarrow>
          marked (js w) s (redact w s)
        \<and> \<not> contains_ci (js w) (redact w s)
        \<and> \<not> contains_ci (js w) (sanitizeString input))
   \<and> sanitizeString (js ''monkey'') = js ''mon[REDACTED]''
   \<and> sanitizeString (js ''monkey'') \<noteq> js ''monkey''"
proof -
  have words: "marked (js w) s (redact w s) \<and> \<not> contains_ci (js w) (redact w s)
        \<and> \<not> contains_ci (js w) (sanitizeString input)"
    if w: "w \<in> {''password'', ''secret'', ''token'', ''key''}"
  proof -
    from w have "w \<noteq> []" by auto
    then show ?thesis using marked_redact_step redact_clears [OF w] sanitizeString_clears [OF w] by blast
  qed
  have monkey: "sanitizeString (js ''monkey'') = js ''mon[REDACTED]''" by code_simp
  have differs: "js ''mon[REDACTED]'' \<noteq> js ''monkey''" by (simp add: js_def)
  show ?thesis using sanitizeString_stages [of input] words monkey differs by simp
qed

theorem redaction_of_sensitive_words_witness:
  "marked (js ''key'') (js ''monkey'') (redact ''key'' (js ''monkey''))
   \<and> \<not> contains_ci (js ''key'') (redact ''key'' (js ''monkey''))
   \<and> \<not> contains_ci (js ''key'') (sanitizeString (js ''Monkey business, TOKEN42''))"
proof -
  have w: "''key'' \<in> {''password'', ''secret'', ''token'', ''key''}" by simp
  show ?thesis
    using redaction_of_sensitive_words [of "js ''Monkey business, TOKEN42''" "''key''" "js ''monkey''"] w
    by blast
qed

text \<open>
  The claim as written, that every occurrence is replaced by the marker, fails for an
  occurrence that an earlier removal step takes away: in \<open>onkey=5\<close> the word
  \<open>key\<close> belongs to a match of the handler pattern, which is deleted, and the result
  \<open>5\<close> carries no marker.
\<close>

theorem redaction_counterexample:
  "contains_ci (js ''key'') (js ''onkey=5'')
   \<and> sanitizeString (js ''onkey=5'') = js ''5''
   \<and> \<not> contains_ci REDACTED (sanitizeString (js ''onkey=5''))"
  by code_simp

section \<open>Sanitisation of parameters\<close>

lemma sanitize_entry_map_of:
  "map_of (sanitize_entry repr acc (k', v)) k =
     (if k = k' \<and> k' \<noteq> js ''__proto__''
      then (case entry_string repr v of Some x \<Rightarrow> Some x | None \<Rightarrow> map_of acc k)
      else map_of acc k)"
  by (cases v) (simp_all add: sanitize_entry_def entry_string_def assign_string_def update_conv')

lemma sanitize_entry_distinct:
  "distinct (map fst acc) \<Longrightarrow> distinct (map fst (sanitize_entry repr acc e))"
  by (cases e, cases "snd e") (simp_all add: sanitize_entry_def assign_string_def distinct_update)

lemma foldl_sanitize_entry_distinct:
  "distinct (map fst acc) \<Longrightarrow> distinct (map fst (foldl (sanitize_entry repr) acc ps))"
  by (induction ps arbitrary: acc) (simp_all add: sanitize_entry_distinct)

lemma foldl_sanitize_entry_map_of:
  assumes "distinct (map fst ps)"
  shows "map_of (foldl (sanitize_entry repr) acc ps) k =
     (case (if k = js ''__proto__'' then None else Option.bind (map_of ps k) (entry_string repr)) of
        None \<Rightarrow> map_of acc k
      | Some x \<Rightarrow> Some x)"
  using assms
proof (induction ps arbitrary: acc)
  case Nil
  then show ?case by simp
next
  case (Cons e ps)
  obtain k' v where e: "e = (k', v)" by (cases e)
  from Cons.prems e have d: "distinct (map fst ps)" and fresh: "map_of ps k' = None"
    by (simp_all add: map_of_eq_None_iff)
  show ?case
    using Cons.IH [OF d, of "sanitize_entry repr acc (k', v)"] fresh
    by (auto simp add: e sanitize_entry_map_of split: option.splits)
qed

text \<open>
  What \<open>validateAndSanitizeParams\<close> does for an object with distinct keys: the result
  has distinct keys; a key other than \<open>__proto__\<close> is present exactly when its value
  is a string, a number or a boolean, and then holds the sanitised string or the
  \<open>toString()\<close> of the value; the key \<open>__proto__\<close> is never present.
\<close>

lemma validateAndSanitizeParams_entries:
  assumes "distinct (map fst params)"
  shows "distinct (map fst (validateAndSanitizeParams repr params))"
    and "map_of (validateAndSanitizeParams repr params) k =
      (if k = js ''__proto__'' then None else Option.bind (map_of params k) (entry_string repr))"
  using foldl_sanitize_entry_map_of [OF assms, of repr "[]" k]
    foldl_sanitize_entry_distinct [of "[]" repr params]
  by (auto simp add: validateAndSanitizeParams_def split: option.splits)

text \<open>
  Claim C7.  Every key whose value is a string, a number or a boolean is claimed to
  appear in the result.  The result object is created by \<open>{}\<close> and filled by
  assignment, so an own property \<open>__proto__\<close> of the input (as \<open>JSON.parse\<close>
  creates it) is lost: the assignment of a string to \<open>sanitized["__proto__"]\<close> has no
  effect.  All other keys behave as claimed, as the preceding lemma shows.
\<close>

theorem validateAndSanitizeParams_drops_proto:
  "validateAndSanitizeParams repr [(js ''__proto__'', Str (js ''x''))] = []
   \<and> validateAndSanitizeParams repr [(js ''a'', Str (js ''x<y'')), (js ''__proto__'', Num (Fin 0)), (js ''c'', Bool False)]
       = [(js ''a'', js ''xy''), (js ''c'', js ''false'')]"
proof -
  have s: "sanitizeString (js ''x<y'') = js ''xy''" "sanitizeString (js ''x'') = js ''x''" by code_simp+
  have k: "js ''a'' \<noteq> js ''__proto__''" "js ''c'' \<noteq> js ''__proto__''" "js ''a'' \<noteq> js ''c''"
    by (simp_all add: js_def)
  show ?thesis
    by (simp add: validateAndSanitizeParams_def sanitize_entry_def assign_string_def s k
        Boolean_toString_def)
qed

section \<open>Normalisation of responses\<close>

lemma get_prop_update:
  "get_prop (AList.update k v ps) k' = (if k' = k then v else get_prop ps k')"
  by (simp add: get_prop_def update_conv')

lemma typeof_string: "typeof v = ''string'' \<longleftrightarrow> (\<exists>s. v = Str s)"
  by (cases v) auto

lemma property_names_differ:
  "js ''count'' \<noteq> js ''results''" "js ''next'' \<noteq> js ''results''" "js ''previous'' \<noteq> js ''results''"
  "js ''next'' \<noteq> js ''count''" "js ''previous'' \<noteq> js ''count''" "js ''previous'' \<noteq> js ''next''"
  by (simp_all add: js_def)

text \<open>
  What \<open>normalizeApiResponse\<close> does to an object whose \<open>results\<close> is an array: a
  \<open>count\<close> that is a number other than NaN and not below zero is kept; any other
  \<open>count\<close> (missing, NaN, negative, or of another type, a string included) becomes the
  length of \<open>results\<close>; \<open>next\<close> and \<open>previous\<close> end up a string or \<open>null\<close>.
\<close>

lemma normalizeApiResponse_list:
  assumes "get_prop props (js ''results'') = Arr results"
  shows "\<exists>props'. normalizeApiResponse (Obj props) = Obj props'
     \<and> get_prop props' (js ''results'') = Arr results
     \<and> get_prop props' (js ''count'') =
         (case get_prop props (js ''count'') of
            Num n \<Rightarrow> if n = NaN \<or> negative n then Num (Fin (of_nat (length results))) else Num n
          | _ \<Rightarrow> Num (Fin (of_nat (length results))))
     \<and> (get_prop props' (js ''next'') = Null \<or> (\<exists>s. get_prop props' (js ''next'') = Str s))
     \<and> (get_prop props' (js ''previous'') = Null \<or> (\<exists>s. get_prop props' (js ''previous'') = Str s))"
proof -
  define count where "count = get_prop props (js ''count'')"
  define p1 where "p1 = (if typeof count \<noteq> ''number'' \<or> isNaN count
                            \<or> (case count of Num n \<Rightarrow> negative n | _ \<Rightarrow> False)
                         then AList.update (js ''count'') (Num (Fin (of_nat (length results)))) props
                         else props)"
  define p2 where "p2 = (if get_prop p1 (js ''next'') \<noteq> Null
                            \<and> typeof (get_prop p1 (js ''next'')) \<noteq> ''string''
                         then AList.update (js ''next'') Null p1 else p1)"
  define p3 where "p3 = (if get_prop p2 (js ''previous'') \<noteq> Null
                            \<and> typeof (get_prop p2 (js ''previous'')) \<noteq> ''string''
                         then AList.update (js ''previous'') Null p2 else p2)"
  have n: "normalizeApiResponse (Obj props) = Obj p3"
    by (simp only: normalizeApiResponse_def assms jsvalue.case Let_def p3_def p2_def p1_def count_def)
  have c1: "get_prop p1 (js ''count'') =
         (case count of
            Num n \<Rightarrow> if n = NaN \<or> negative n then Num (Fin (of_nat (length results))) else Num n
          | _ \<Rightarrow> Num (Fin (of_nat (length results))))"
  proof (cases count)
    case (Num x)
    then show ?thesis by (cases x) (simp_all add: p1_def get_prop_update count_def)
  qed (simp_all add: p1_def get_prop_update)
  have r1: "get_prop p1 (js ''results'') = Arr results"
    using assms by (simp add: p1_def get_prop_update property_names_differ [symmetric])
  have c3: "get_prop p3 (js ''count'') = get_prop p1 (js ''count'')"
    by (simp add: p3_def p2_def get_prop_update property_names_differ [symmetric])
  have r3: "get_prop p3 (js ''results'') = Arr results"
    using r1 by (simp add: p3_def p2_def get_prop_update property_names_differ [symmetric])
  have n2: "get_prop p2 (js ''next'') = Null \<or> (\<exists>s. get_prop p2 (js ''next'') = Str s)"
    by (auto simp add: p2_def get_prop_update typeof_string)
  then have n3: "get_prop p3 (js ''next'') = Null \<or> (\<exists>s. get_prop p3 (js ''next'') = Str s)"
    by (simp add: p3_def get_prop_update property_names_differ [symmetric])
  have v3: "get_prop p3 (js ''previous'') = Null \<or> (\<exists>s. get_prop p3 (js ''previous'') = Str s)"
    by (auto simp add: p3_def get_prop_update typeof_string)
  have c: "get_prop p3 (js ''count'') =
         (case get_prop props (js ''count'') of
            Num n \<Rightarrow> if n = NaN \<or> negative n then Num (Fin (of_nat (length results))) else Num n
          | _ \<Rightarrow> Num (Fin (of_nat (length results))))"
    using c3 c1 unfolding count_def by (rule trans)
  show ?thesis
    by (rule exI [of _ p3]) (intro conjI n r3 c n3 v3)
qed

text \<open>
  Claim C2.  A \<open>count\<close> that is a numeric string is claimed to be parsed.  The
  function tests \<open>typeof data.count !== 'number'\<close> and replaces every value that is
  not a number by the length of \<open>results\<close>: the string \<open>"7"\<close> with two results
  becomes 2.  The remaining parts of the claim hold, as the preceding lemma shows.
\<close>

theorem normalizeApiResponse_numeric_string:
  "normalizeApiResponse (Obj [(js ''results'', Arr [Num (Fin 1), Num (Fin 2)]), (js ''count'', Str (js ''7''))])
     = Obj [(js ''results'', Arr [Num (Fin 1), Num (Fin 2)]), (js ''count'', Num (Fin 2)),
            (js ''next'', Null), (js ''previous'', Null)]"
  by code_simp

theorem normalizeApiResponse_numeric_string_witness:
  "get_prop [(js ''results'', Arr [Num (Fin 1), Num (Fin 2)]), (js ''count'', Str (js ''7''))] (js ''results'')
     = Arr [Num (Fin 1), Num (Fin 2)]
   \<and> normalizeApiResponse (Obj [(js ''results'', Arr [Num (Fin 1), Num (Fin 2)]), (js ''count'', Str (js ''7''))])
     \<noteq> Obj [(js ''results'', Arr [Num (Fin 1), Num (Fin 2)]), (js ''count'', Num (Fin 7)),
            (js ''next'', Null), (js ''previous'', Null)]"
  using normalizeApiResponse_numeric_string by (simp add: get_prop_def)

end
